theory Spec2Isabelle
  imports Main "HOL-Library.Sublist"
begin

section \<open>The release-notes updater (update-release-notes.js)\<close>

text \<open>
  The script reads the newest section of an SDK changelog and splices it into a
  release-notes document. A JavaScript string is modelled as the list of its code units,
  \<^typ>\<open>string\<close>; the model covers code units below 256, among which the white space that
  \<^verbatim>\<open>String.prototype.trim\<close> removes is TAB, LF, VT, FF, CR, SPACE and NBSP.
\<close>

subsection \<open>String primitives of the JavaScript runtime\<close>

definition is_ws :: "char \<Rightarrow> bool" where
  "is_ws c = (c \<in> set [CHR 0x09, CHR 0x0A, CHR 0x0B, CHR 0x0C, CHR 0x0D, CHR 0x20, CHR 0xA0])"

text \<open>\<^verbatim>\<open>s.trim()\<close>\<close>

definition trim :: "string \<Rightarrow> string" where
  "trim s = rev (dropWhile is_ws (rev (dropWhile is_ws s)))"

text \<open>\<^verbatim>\<open>s.startsWith(p)\<close> and \<^verbatim>\<open>s.includes(p)\<close>\<close>

definition startsWith :: "string \<Rightarrow> string \<Rightarrow> bool" where
  "startsWith s p = prefix p s"

definition includes_str :: "string \<Rightarrow> string \<Rightarrow> bool" where
  "includes_str s p = sublist p s"

text \<open>\<^verbatim>\<open>s.split("\n")\<close>: never empty, one more element than there are line feeds.\<close>

fun split_nl :: "string \<Rightarrow> string list" where
  "split_nl [] = [[]]"
| "split_nl (c # cs) =
     (if c = CHR 0x0A then [] # split_nl cs
      else (case split_nl cs of
              [] \<Rightarrow> [[c]]
            | l # ls \<Rightarrow> (c # l) # ls))"

text \<open>\<^verbatim>\<open>ls.join("\n")\<close>: the empty array joins to the empty string.\<close>

fun join_nl :: "string list \<Rightarrow> string" where
  "join_nl [] = []"
| "join_nl [l] = l"
| "join_nl (l # m # ls) = l @ CHR 0x0A # join_nl (m # ls)"

subsection \<open>parseChangelog\<close>

text \<open>The object that \<^verbatim>\<open>parseChangelog\<close> returns.\<close>

record release =
  version :: string
  content :: string
  full :: string

text \<open>
  The \<^verbatim>\<open>for (const line of lines)\<close> loop of \<^verbatim>\<open>parseChangelog\<close>, with its three
  variables \<^verbatim>\<open>latestVersion\<close>, \<^verbatim>\<open>latestContent\<close> and \<^verbatim>\<open>inLatestVersion\<close>; the
  \<^verbatim>\<open>break\<close> returns the variables as they are.
\<close>

fun parse_loop :: "string list \<Rightarrow> string \<Rightarrow> string list \<Rightarrow> bool \<Rightarrow> string \<times> string list" where
  "parse_loop [] latestVersion latestContent inLatestVersion = (latestVersion, latestContent)"
| "parse_loop (line # rest) latestVersion latestContent inLatestVersion =
     (if startsWith line ''## [''
      then (if \<not> inLatestVersion
            then parse_loop rest (trim line) (latestContent @ [line]) True
            else (latestVersion, latestContent))
      else if inLatestVersion
      then parse_loop rest latestVersion (latestContent @ [line]) inLatestVersion
      else parse_loop rest latestVersion latestContent inLatestVersion)"

definition parseChangelog :: "string \<Rightarrow> release" where
  "parseChangelog changelogContent =
     (let lines = split_nl changelogContent;
          (latestVersion, latestContent) = parse_loop lines [] [] False;
          cleanContent = filter (\<lambda>line. \<not> startsWith line ''## ['') latestContent
      in \<lparr> version = latestVersion,
           content = trim (join_nl cleanContent),
           full = trim (latestVersion @ [CHR 0x0A] @ join_nl cleanContent) \<rparr>)"

subsection \<open>insertReleaseIntoDocs\<close>

text \<open>
  The indexed loop of \<^verbatim>\<open>insertReleaseIntoDocs\<close>: \<open>i\<close> is the index of \<open>line\<close>, the other
  arguments are \<^verbatim>\<open>inFrontmatter\<close>, \<^verbatim>\<open>overviewFound\<close>, \<^verbatim>\<open>overviewContent\<close> and
  \<^verbatim>\<open>insertIndex\<close>. Only \<^verbatim>\<open>insertIndex\<close> is read after the loop.
\<close>

fun insert_loop :: "string list \<Rightarrow> nat \<Rightarrow> bool \<Rightarrow> bool \<Rightarrow> string list \<Rightarrow> nat \<Rightarrow> nat" where
  "insert_loop [] i inFrontmatter overviewFound overviewContent insertIndex = insertIndex"
| "insert_loop (line # rest) i inFrontmatter overviewFound overviewContent insertIndex =
     (if trim line = ''---'' \<and> \<not> inFrontmatter
      then insert_loop rest (i + 1) True overviewFound overviewContent insertIndex
      else if trim line = ''---'' \<and> inFrontmatter
      then insert_loop rest (i + 1) False overviewFound overviewContent insertIndex
      else if \<not> inFrontmatter \<and> startsWith line ''## Overview''
      then insert_loop rest (i + 1) inFrontmatter True overviewContent i
      else if overviewFound \<and> startsWith line ''## [''
      then insertIndex
      else if overviewFound
      then insert_loop rest (i + 1) inFrontmatter overviewFound (overviewContent @ [line]) (i + 1)
      else insert_loop rest (i + 1) inFrontmatter overviewFound overviewContent insertIndex)"

definition insertReleaseIntoDocs :: "string \<Rightarrow> release \<Rightarrow> string" where
  "insertReleaseIntoDocs docsContent newRelease =
     (let lines = split_nl docsContent;
          insertIndex = insert_loop lines 0 False False [] 0;
          before = join_nl (take insertIndex lines);
          after = join_nl (drop insertIndex lines)
      in trim (before @ [CHR 0x0A, CHR 0x0A] @ full newRelease @ [CHR 0x0A, CHR 0x0A] @ after))"

subsection \<open>removeDuplicateHeaders\<close>

text \<open>The loop over the lines, with \<^verbatim>\<open>seenHeaders\<close> and \<^verbatim>\<open>cleanedLines\<close>.\<close>

fun dedup_loop :: "string list \<Rightarrow> string set \<Rightarrow> string list \<Rightarrow> string list" where
  "dedup_loop [] seenHeaders cleanedLines = cleanedLines"
| "dedup_loop (line # rest) seenHeaders cleanedLines =
     (if startsWith line ''## [''
      then (if trim line \<in> seenHeaders
            then dedup_loop rest seenHeaders cleanedLines
            else dedup_loop rest (insert (trim line) seenHeaders) (cleanedLines @ [line]))
      else dedup_loop rest seenHeaders (cleanedLines @ [line]))"

definition removeDuplicateHeaders :: "string \<Rightarrow> string" where
  "removeDuplicateHeaders content_text = join_nl (dedup_loop (split_nl content_text) {} [])"

subsection \<open>The files and the process\<close>

text \<open>
  A JavaScript call returns, throws, or ends the process through \<^verbatim>\<open>process.exit\<close>,
  here with the exit code and the line written by \<^verbatim>\<open>console.error\<close> just before it.
  The file system maps a path to the text of a readable file; a write to a path in
  \<open>write_fails\<close> throws.
\<close>

datatype message = ErrorReading string | CouldNotParse | ErrorWriting string | Uncaught

datatype 'a completion = Returns 'a | Throws | Exits nat message

record world =
  files :: "string \<Rightarrow> string option"
  write_fails :: "string set"

definition readFileSync :: "world \<Rightarrow> string \<Rightarrow> string completion" where
  "readFileSync w filePath = (case files w filePath of None \<Rightarrow> Throws | Some s \<Rightarrow> Returns s)"

definition writeFileSync :: "world \<Rightarrow> string \<Rightarrow> string \<Rightarrow> world completion" where
  "writeFileSync w filePath text =
     (if filePath \<in> write_fails w then Throws
      else Returns (w\<lparr>files := (files w)(filePath \<mapsto> text)\<rparr>))"

text \<open>\<^verbatim>\<open>readFile\<close> and \<^verbatim>\<open>writeFile\<close> catch the exception and call \<^verbatim>\<open>process.exit(1)\<close>.\<close>

definition readFile :: "world \<Rightarrow> string \<Rightarrow> string completion" where
  "readFile w filePath =
     (case readFileSync w filePath of
        Returns s \<Rightarrow> Returns s
      | Throws \<Rightarrow> Exits 1 (ErrorReading filePath)
      | Exits n m \<Rightarrow> Exits n m)"

definition writeFile :: "world \<Rightarrow> string \<Rightarrow> string \<Rightarrow> world completion" where
  "writeFile w filePath text =
     (case writeFileSync w filePath text of
        Returns w' \<Rightarrow> Returns w'
      | Throws \<Rightarrow> Exits 1 (ErrorWriting filePath)
      | Exits n m \<Rightarrow> Exits n m)"

definition RELEASE_NOTES_PATH :: string where
  "RELEASE_NOTES_PATH = ''./release-notes.md''"

text \<open>
  Lines 168 to 187 of \<^verbatim>\<open>updateReleaseNotes\<close>: the text to write, or \<open>None\<close> when the
  function returns at the already-present check without writing.
\<close>

definition updatedContent :: "string \<Rightarrow> release \<Rightarrow> string option" where
  "updatedContent existingContent newRelease =
     (if includes_str existingContent (version newRelease) then None
      else (let existingContent' = removeDuplicateHeaders existingContent
            in if includes_str existingContent' ''## Overview''
               then Some (insertReleaseIntoDocs existingContent' newRelease)
               else Some (trim (full newRelease @ [CHR 0x0A, CHR 0x0A] @ existingContent'))))"

text \<open>The destination text after one merge cycle.\<close>

definition merged :: "string \<Rightarrow> release \<Rightarrow> string" where
  "merged existingContent newRelease =
     (case updatedContent existingContent newRelease of
        None \<Rightarrow> existingContent
      | Some text \<Rightarrow> text)"

text \<open>
  How a run of \<^verbatim>\<open>updateReleaseNotes\<close> ends: by \<^verbatim>\<open>process.exit\<close>, by the early return of
  the already-present check, or after the write, with the header that the text handed to
  \<^verbatim>\<open>sendSlackNotification\<close> names (the failure of that call is caught and only logged).
\<close>

datatype outcome = Exited nat message | AlreadyPresent | Updated string

text \<open>
  \<^verbatim>\<open>updateReleaseNotes\<close>; \<open>SDK_CHANGELOG_PATH\<close> is the constant of that name, read from the
  environment. The \<^verbatim>\<open>try\<close> around the second \<^verbatim>\<open>readFile\<close> catches what that call throws.
  An exception that nothing catches rejects the promise of the \<^verbatim>\<open>async\<close> function, and
  the process ends with exit code 1.
\<close>

definition updateReleaseNotes :: "string \<Rightarrow> world \<Rightarrow> outcome \<times> world" where
  "updateReleaseNotes SDK_CHANGELOG_PATH w =
     (case readFile w SDK_CHANGELOG_PATH of
        Exits n m \<Rightarrow> (Exited n m, w)
      | Throws \<Rightarrow> (Exited 1 Uncaught, w)
      | Returns changelogContent \<Rightarrow>
          (let newRelease = parseChangelog changelogContent
           in if version newRelease = [] \<or> content newRelease = []
              then (Exited 1 CouldNotParse, w)
              else (case (case readFile w RELEASE_NOTES_PATH of
                            Returns s \<Rightarrow> Returns s
                          | Throws \<Rightarrow> Returns []
                          | Exits n m \<Rightarrow> Exits n m) of
                      Exits n m \<Rightarrow> (Exited n m, w)
                    | Throws \<Rightarrow> (Exited 1 Uncaught, w)
                    | Returns existingContent \<Rightarrow>
                        (case updatedContent existingContent newRelease of
                           None \<Rightarrow> (AlreadyPresent, w)
                         | Some text \<Rightarrow>
                             (case writeFile w RELEASE_NOTES_PATH text of
                                Returns w' \<Rightarrow>
                                  (Updated (version newRelease), w')
                              | Throws \<Rightarrow> (Exited 1 Uncaught, w)
                              | Exits n m \<Rightarrow> (Exited n m, w))))))"

text \<open>A version header line, and how many header lines of a list have a given trimmed text.\<close>

abbreviation is_header :: "string \<Rightarrow> bool" where
  "is_header line \<equiv> startsWith line ''## [''"

definition header_count :: "string \<Rightarrow> string list \<Rightarrow> nat" where
  "header_count k ls = length (filter (\<lambda>line. is_header line \<and> trim line = k) ls)"

section \<open>Properties\<close>

subsection \<open>White space and \<open>trim\<close>\<close>

lemma is_ws_nl [simp]: "is_ws (CHR 0x0A)"
  by (simp add: is_ws_def)

lemma trim_Nil [simp]: "trim [] = []"
  by (simp add: trim_def)

lemma trim_eq_Nil: "trim s = [] \<longleftrightarrow> (\<forall>c\<in>set s. is_ws c)"
proof -
  have "trim s = [] \<longleftrightarrow> (\<forall>c\<in>set (dropWhile is_ws s). is_ws c)"
    by (simp add: trim_def dropWhile_eq_Nil_conv)
  also have "\<dots> \<longleftrightarrow> (\<forall>c\<in>set s. is_ws c)"
    by (metis dropWhile_eq_Nil_conv hd_dropWhile hd_in_set set_empty2 empty_iff)
  finally show ?thesis .
qed

lemma dropWhile_ws_prepend: "\<forall>c\<in>set w. is_ws c \<Longrightarrow> dropWhile is_ws (w @ s) = dropWhile is_ws s"
  by (induction w) auto

lemma trim_prepend_ws: "\<forall>c\<in>set w. is_ws c \<Longrightarrow> trim (w @ s) = trim s"
  by (simp add: trim_def dropWhile_ws_prepend)

lemma dropWhile_ws_keeps_nonws:
  "\<exists>c\<in>set s. \<not> is_ws c \<Longrightarrow> dropWhile is_ws (s @ w) = dropWhile is_ws s @ w"
  by (induction s) auto

lemma trim_append_ws:
  assumes "\<forall>c\<in>set w. is_ws c"
  shows "trim (s @ w) = trim s"
proof (cases "\<forall>c\<in>set s. is_ws c")
  case True
  with assms have "\<forall>c\<in>set (s @ w). is_ws c" by auto
  then have "trim (s @ w) = []" by (simp only: trim_eq_Nil)
  moreover from True have "trim s = []" by (simp only: trim_eq_Nil)
  ultimately show ?thesis by simp
next
  case False
  then have "dropWhile is_ws (s @ w) = dropWhile is_ws s @ w"
    by (simp add: dropWhile_ws_keeps_nonws)
  moreover have "dropWhile is_ws (rev w @ x) = dropWhile is_ws x" for x
    using assms by (simp add: dropWhile_ws_prepend)
  ultimately show ?thesis
    by (simp add: trim_def)
qed

lemma trim_hd_not_ws: "trim s \<noteq> [] \<Longrightarrow> \<not> is_ws (hd (trim s))"
proof -
  assume ne: "trim s \<noteq> []"
  let ?x = "dropWhile is_ws s"
  have xne: "?x \<noteq> []"
  proof
    assume "?x = []"
    then have "trim s = []" by (simp only: trim_def rev.simps dropWhile.simps)
    with ne show False by simp
  qed
  then have hx: "\<not> is_ws (hd ?x)" by (rule hd_dropWhile)
  have "?x = trim s @ rev (takeWhile is_ws (rev ?x))"
    by (metis rev_append rev_rev_ident takeWhile_dropWhile_id trim_def)
  with ne have "hd ?x = hd (trim s)" by (metis hd_append2)
  with hx show ?thesis by simp
qed

lemma trim_last_not_ws: "trim s \<noteq> [] \<Longrightarrow> \<not> is_ws (last (trim s))"
proof -
  assume ne: "trim s \<noteq> []"
  let ?y = "dropWhile is_ws (rev (dropWhile is_ws s))"
  have "?y \<noteq> []" using ne by (simp add: trim_def)
  then have "\<not> is_ws (hd ?y)" by (rule hd_dropWhile)
  moreover have "last (trim s) = hd ?y" using \<open>?y \<noteq> []\<close> by (simp add: trim_def last_rev)
  ultimately show ?thesis by simp
qed

lemma trim_noop:
  assumes "s \<noteq> []" "\<not> is_ws (hd s)" "\<not> is_ws (last s)"
  shows "trim s = s"
proof -
  have a: "dropWhile is_ws s = s" using assms by (cases s) auto
  have "rev s \<noteq> []" "\<not> is_ws (hd (rev s))" using assms by (simp_all add: hd_rev)
  then have "dropWhile is_ws (rev s) = rev s" by (cases "rev s") auto
  with a show ?thesis by (simp add: trim_def)
qed

lemma trim_idem [simp]: "trim (trim s) = trim s"
proof (cases "trim s = []")
  case True then show ?thesis by simp
next
  case False
  then show ?thesis by (simp add: trim_noop trim_hd_not_ws trim_last_not_ws)
qed

lemma trim_decomp:
  "\<exists>a b. s = a @ trim s @ b \<and> (\<forall>c\<in>set a. is_ws c) \<and> (\<forall>c\<in>set b. is_ws c)"
proof -
  let ?x = "dropWhile is_ws s"
  have 1: "s = takeWhile is_ws s @ ?x" by simp
  have 2: "?x = trim s @ rev (takeWhile is_ws (rev ?x))"
    by (metis rev_append rev_rev_ident takeWhile_dropWhile_id trim_def)
  have 3: "\<forall>c\<in>set (takeWhile is_ws s). is_ws c" by (auto dest: set_takeWhileD)
  have 4: "\<forall>c\<in>set (rev (takeWhile is_ws (rev ?x))). is_ws c" by (auto dest: set_takeWhileD)
  from 1 2 have "s = takeWhile is_ws s @ trim s @ rev (takeWhile is_ws (rev ?x))" by simp
  with 3 4 show ?thesis by blast
qed

lemma sublist_dropWhile_ws:
  assumes "v \<noteq> []" "\<not> is_ws (hd v)"
  shows "sublist v s \<Longrightarrow> sublist v (dropWhile is_ws s)"
proof (induction s)
  case Nil then show ?case by simp
next
  case (Cons c cs)
  show ?case
  proof (cases "is_ws c")
    case False then show ?thesis using Cons.prems by simp
  next
    case True
    have "\<not> prefix v (c # cs)" using assms True by (cases v) auto
    with Cons.prems have "sublist v cs" by (simp add: sublist_Cons_right)
    then show ?thesis using True Cons.IH by simp
  qed
qed

lemma sublist_trim:
  assumes "sublist v s" "v \<noteq> []" "\<not> is_ws (hd v)" "\<not> is_ws (last v)"
  shows "sublist v (trim s)"
proof -
  have "sublist v (dropWhile is_ws s)" using assms by (simp add: sublist_dropWhile_ws)
  then have "sublist (rev v) (rev (dropWhile is_ws s))" by simp
  moreover have "rev v \<noteq> []" "\<not> is_ws (hd (rev v))" using assms by (simp_all add: hd_rev)
  ultimately have "sublist (rev v) (dropWhile is_ws (rev (dropWhile is_ws s)))"
    by (simp add: sublist_dropWhile_ws)
  then have "sublist (rev (rev v)) (rev (dropWhile is_ws (rev (dropWhile is_ws s))))"
    by (simp only: sublist_rev)
  then show ?thesis by (simp add: trim_def)
qed

subsection \<open>Lines: \<open>split\<close> and \<open>join\<close>\<close>

lemma split_nl_not_Nil [simp]: "split_nl s \<noteq> []"
  by (induction s) (auto split: list.splits)

lemma split_nl_Cons_other:
  "c \<noteq> CHR 0x0A \<Longrightarrow> split_nl (c # cs) = (c # hd (split_nl cs)) # tl (split_nl cs)"
  by (cases "split_nl cs") simp_all

lemma join_nl_Cons: "ls \<noteq> [] \<Longrightarrow> join_nl (l # ls) = l @ CHR 0x0A # join_nl ls"
  by (cases ls) simp_all

lemma join_nl_Cons_Cons: "join_nl ((c # l) # ls) = c # join_nl (l # ls)"
  by (cases ls) simp_all

lemma join_split [simp]: "join_nl (split_nl s) = s"
proof (induction s)
  case Nil
  show ?case by simp
next
  case (Cons c cs)
  show ?case
  proof (cases "c = CHR 0x0A")
    case True
    then show ?thesis using Cons by (simp add: join_nl_Cons)
  next
    case False
    obtain l ls where sp: "split_nl cs = l # ls"
      by (cases "split_nl cs") simp_all
    with False Cons show ?thesis by (simp add: join_nl_Cons_Cons)
  qed
qed

lemma split_no_nl: "l \<in> set (split_nl s) \<Longrightarrow> CHR 0x0A \<notin> set l"
proof (induction s arbitrary: l)
  case Nil
  then show ?case by simp
next
  case (Cons c cs)
  then show ?case by (auto split: if_splits list.splits)
qed

lemma split_nl_single: "CHR 0x0A \<notin> set l \<Longrightarrow> split_nl l = [l]"
  by (induction l) auto

lemma split_append_nl: "split_nl (a @ CHR 0x0A # b) = split_nl a @ split_nl b"
proof (induction a)
  case Nil
  show ?case by simp
next
  case (Cons c a)
  obtain l ls where sp: "split_nl a = l # ls"
    by (cases "split_nl a") simp_all
  with Cons show ?case by simp
qed

lemma split_join:
  "ls \<noteq> [] \<Longrightarrow> \<forall>l\<in>set ls. CHR 0x0A \<notin> set l \<Longrightarrow> split_nl (join_nl ls) = ls"
proof (induction ls rule: join_nl.induct)
  case 1
  then show ?case by simp
next
  case (2 l)
  then show ?case by (simp add: split_nl_single)
next
  case (3 l m ls)
  then show ?case by (simp add: split_append_nl split_nl_single)
qed

lemma sublist_join: "l \<in> set ls \<Longrightarrow> sublist l (join_nl ls)"
proof (induction ls rule: join_nl.induct)
  case 1
  then show ?case by simp
next
  case (2 l')
  then show ?case by simp
next
  case (3 l' m ls)
  show ?case
  proof (cases "l = l'")
    case True
    then show ?thesis by simp
  next
    case False
    with 3 have "sublist l (join_nl (m # ls))" by simp
    then obtain p q where "join_nl (m # ls) = p @ l @ q" by (auto simp: sublist_def)
    then have "join_nl (l' # m # ls) = (l' @ CHR 0x0A # p) @ l @ q" by simp
    then show ?thesis unfolding sublist_def by blast
  qed
qed

lemma line_sublist: "l \<in> set (split_nl s) \<Longrightarrow> sublist l s"
  using sublist_join [of l "split_nl s"] by simp

subsection \<open>Header lines\<close>

lemma not_ws_hash [simp]: "\<not> is_ws (CHR ''#'')"
  by (simp add: is_ws_def)

lemma not_ws_bracket [simp]: "\<not> is_ws (CHR ''['')"
  by (simp add: is_ws_def)

lemma header_hd: "is_header h \<Longrightarrow> h \<noteq> [] \<and> hd h = CHR ''#''"
  by (auto simp: startsWith_def prefix_def)

lemma header_trim_not_Nil: "is_header h \<Longrightarrow> trim h \<noteq> []"
proof -
  assume "is_header h"
  then have "h \<noteq> []" "hd h = CHR ''#''" by (simp_all add: header_hd)
  then have "CHR ''#'' \<in> set h" by (metis hd_in_set)
  then have "\<not> (\<forall>c\<in>set h. is_ws c)" using not_ws_hash by blast
  then show ?thesis by (simp only: trim_eq_Nil not_False_eq_True)
qed

subsection \<open>The loop of parseChangelog\<close>

lemma parse_loop_in:
  "parse_loop ls v acc True = (v, acc @ takeWhile (\<lambda>l. \<not> is_header l) ls)"
  by (induction ls arbitrary: acc) auto

lemma parse_loop_out:
  "parse_loop ls v acc False =
     (case dropWhile (\<lambda>l. \<not> is_header l) ls of
        [] \<Rightarrow> (v, acc)
      | h # t \<Rightarrow> (trim h, acc @ h # takeWhile (\<lambda>l. \<not> is_header l) t))"
  by (induction ls arbitrary: acc) (auto simp: parse_loop_in)

lemma trim_single_nl [simp]: "trim [CHR 0x0A] = []"
  by (simp add: trim_def)

lemma parseChangelog_no_header:
  assumes "\<forall>l\<in>set (split_nl c). \<not> is_header l"
  shows "parseChangelog c = \<lparr>version = [], content = [], full = []\<rparr>"
proof -
  have d: "dropWhile (\<lambda>l. \<not> is_header l) (split_nl c) = []"
    using assms by simp
  show ?thesis
    by (simp add: parseChangelog_def parse_loop_out d)
qed

lemma parseChangelog_section:
  assumes sp: "split_nl c = pre @ [h] @ body @ rest"
    and pre: "\<forall>l\<in>set pre. \<not> is_header l"
    and h: "is_header h"
    and body: "\<forall>l\<in>set body. \<not> is_header l"
    and rest: "rest = [] \<or> is_header (hd rest)"
  shows "parseChangelog c =
     \<lparr>version = trim h, content = trim (join_nl body),
      full = trim (trim h @ [CHR 0x0A] @ join_nl body)\<rparr>"
proof -
  have d: "dropWhile (\<lambda>l. \<not> is_header l) (split_nl c) = h # body @ rest"
    using pre h by (simp add: sp dropWhile_append2)
  have "takeWhile (\<lambda>l. \<not> is_header l) rest = []"
    using rest by (cases rest) auto
  then have t: "takeWhile (\<lambda>l. \<not> is_header l) (body @ rest) = body"
    using body by (simp add: takeWhile_append2)
  have f: "filter (\<lambda>l. \<not> is_header l) body = body"
    using body by (simp add: filter_id_conv)
  show ?thesis
    using h by (simp add: parseChangelog_def parse_loop_out d t f)
qed

lemma parseChangelog_shape:
  assumes "version (parseChangelog c) \<noteq> []"
  obtains h body where "is_header h" and "CHR 0x0A \<notin> set h"
    and "\<forall>l\<in>set body. \<not> is_header l \<and> CHR 0x0A \<notin> set l"
    and "parseChangelog c =
        \<lparr>version = trim h, content = trim (join_nl body),
         full = trim (trim h @ [CHR 0x0A] @ join_nl body)\<rparr>"
proof -
  let ?P = "\<lambda>l. \<not> is_header l"
  let ?ls = "split_nl c"
  have "\<not> (\<forall>l\<in>set ?ls. \<not> is_header l)"
  proof
    assume "\<forall>l\<in>set ?ls. \<not> is_header l"
    then have "parseChangelog c = \<lparr>version = [], content = [], full = []\<rparr>"
      by (rule parseChangelog_no_header)
    with assms show False by simp
  qed
  then have ne: "dropWhile ?P ?ls \<noteq> []" by (simp add: dropWhile_eq_Nil_conv)
  then obtain h t where ht: "dropWhile ?P ?ls = h # t" by (cases "dropWhile ?P ?ls") simp_all
  have hh: "is_header h" using hd_dropWhile [OF ne] ht by simp
  have sp: "?ls = takeWhile ?P ?ls @ [h] @ takeWhile ?P t @ dropWhile ?P t"
    using ht by (metis append_Cons append_Nil takeWhile_dropWhile_id)
  have r: "dropWhile ?P t = [] \<or> is_header (hd (dropWhile ?P t))"
    using hd_dropWhile [of ?P t] by blast
  have p: "parseChangelog c =
     \<lparr>version = trim h, content = trim (join_nl (takeWhile ?P t)),
      full = trim (trim h @ [CHR 0x0A] @ join_nl (takeWhile ?P t))\<rparr>"
    by (rule parseChangelog_section [OF sp _ hh _ r]) (auto dest: set_takeWhileD)
  have in_lines: "x \<in> set ?ls" if "x \<in> set (h # t)" for x
  proof -
    from that have "x \<in> set (dropWhile ?P ?ls)" by (simp only: ht)
    then show ?thesis by (rule set_dropWhileD)
  qed
  have "h \<in> set ?ls" by (rule in_lines) simp
  then have hn: "CHR 0x0A \<notin> set h" by (rule split_no_nl)
  have "l \<in> set ?ls" if "l \<in> set (takeWhile ?P t)" for l
    using that by (intro in_lines) (auto dest: set_takeWhileD)
  then have "\<forall>l\<in>set (takeWhile ?P t). CHR 0x0A \<notin> set l"
    using split_no_nl by blast
  then have b: "\<forall>l\<in>set (takeWhile ?P t). \<not> is_header l \<and> CHR 0x0A \<notin> set l"
    by (auto dest: set_takeWhileD)
  from hh hn b p show thesis by (rule that)
qed

text \<open>The header of a parsed entry, when there is one, is trimmed and occurs in \<open>full\<close>.\<close>

lemma parsed_version_in_full:
  assumes "version (parseChangelog c) \<noteq> []"
  shows "\<not> is_ws (hd (version (parseChangelog c)))
    \<and> \<not> is_ws (last (version (parseChangelog c)))
    \<and> sublist (version (parseChangelog c)) (full (parseChangelog c))"
proof -
  from assms obtain h body where
    hh: "is_header h" and
    p: "parseChangelog c = \<lparr>version = trim h, content = trim (join_nl body),
         full = trim (trim h @ [CHR 0x0A] @ join_nl body)\<rparr>"
    by (rule parseChangelog_shape)
  have ne: "trim h \<noteq> []" using hh by (rule header_trim_not_Nil)
  have a: "\<not> is_ws (hd (trim h))" using ne by (rule trim_hd_not_ws)
  have b: "\<not> is_ws (last (trim h))" using ne by (rule trim_last_not_ws)
  have "sublist (trim h) (trim h @ [CHR 0x0A] @ join_nl body)" by simp
  then have "sublist (trim h) (trim (trim h @ [CHR 0x0A] @ join_nl body))"
    using ne a b by (rule sublist_trim)
  with a b show ?thesis by (simp add: p)
qed

subsection \<open>The already-present check\<close>

lemma includes_str_iff: "includes_str s p \<longleftrightarrow> (\<exists>pre post. s = pre @ p @ post)"
  by (simp add: includes_str_def sublist_def)

text \<open>
  C3. When the changelog is read and parsed and the destination already contains the
  header of the new entry, the run ends at the early return: nothing is written, the
  file system is as it was, and the destination text after the cycle is the destination
  text before it (so also after trimming both).
\<close>

theorem already_present_no_write:
  assumes "files w src = Some c"
    and "version (parseChangelog c) \<noteq> []"
    and "content (parseChangelog c) \<noteq> []"
    and "files w RELEASE_NOTES_PATH = Some d"
    and "includes_str d (version (parseChangelog c))"
  shows "updateReleaseNotes src w = (AlreadyPresent, w)
     \<and> merged d (parseChangelog c) = d
     \<and> trim (merged d (parseChangelog c)) = trim d"
  using assms
  by (simp add: updateReleaseNotes_def readFile_def readFileSync_def Let_def
      updatedContent_def merged_def)

lemma parse_example_2_0_0:
  "parseChangelog ''## [2.0.0]\<newline>new''
     = \<lparr>version = ''## [2.0.0]'', content = ''new'', full = ''## [2.0.0]\<newline>new''\<rparr>"
  by code_simp

theorem already_present_no_write_witness:
  "updateReleaseNotes ''./CHANGELOG.md''
     \<lparr>files = [''./CHANGELOG.md'' \<mapsto> ''## [2.0.0]\<newline>new'',
                ''./release-notes.md'' \<mapsto> ''## [2.0.0]\<newline>old text''],
      write_fails = {}\<rparr>
   = (AlreadyPresent,
      \<lparr>files = [''./CHANGELOG.md'' \<mapsto> ''## [2.0.0]\<newline>new'',
                 ''./release-notes.md'' \<mapsto> ''## [2.0.0]\<newline>old text''],
       write_fails = {}\<rparr>)
   \<and> merged ''## [2.0.0]\<newline>old text'' (parseChangelog ''## [2.0.0]\<newline>new'')
       = ''## [2.0.0]\<newline>old text''"
proof -
  let ?w = "\<lparr>files = [''./CHANGELOG.md'' \<mapsto> ''## [2.0.0]\<newline>new'',
                ''./release-notes.md'' \<mapsto> ''## [2.0.0]\<newline>old text''],
      write_fails = {}\<rparr>"
  have 1: "files ?w ''./CHANGELOG.md'' = Some ''## [2.0.0]\<newline>new''"
    by simp
  have 2: "version (parseChangelog ''## [2.0.0]\<newline>new'') \<noteq> []"
    by (simp add: parse_example_2_0_0)
  have 3: "content (parseChangelog ''## [2.0.0]\<newline>new'') \<noteq> []"
    by (simp add: parse_example_2_0_0)
  have 4: "files ?w RELEASE_NOTES_PATH = Some ''## [2.0.0]\<newline>old text''"
    by (simp add: RELEASE_NOTES_PATH_def)
  have 5: "includes_str ''## [2.0.0]\<newline>old text''
             (version (parseChangelog ''## [2.0.0]\<newline>new''))"
    by (simp add: parse_example_2_0_0 includes_str_def sublist_code)
  from already_present_no_write [OF 1 2 3 4 5] show ?thesis
    by simp
qed

text \<open>
  C9. The check is substring containment over the whole destination text: the merge is
  skipped exactly when the destination is some text, then the header of the new entry,
  then some text, wherever that occurrence lies; the destination is then left as it is.
\<close>

theorem header_anywhere_skips_merge:
  "(updatedContent d e = None \<longleftrightarrow> (\<exists>pre post. d = pre @ version e @ post))
   \<and> updatedContent (pre @ version e @ post) e = None
   \<and> merged (pre @ version e @ post) e = pre @ version e @ post"
proof -
  have skip: "updatedContent x e = None \<longleftrightarrow> includes_str x (version e)" for x
    by (simp add: updatedContent_def Let_def)
  have "includes_str (pre @ version e @ post) (version e)"
    by (simp add: includes_str_def)
  then have none: "updatedContent (pre @ version e @ post) e = None"
    by (simp add: skip)
  then have same: "merged (pre @ version e @ post) e = pre @ version e @ post"
    by (simp add: merged_def)
  have "updatedContent d e = None \<longleftrightarrow> (\<exists>pre post. d = pre @ version e @ post)"
    by (simp only: skip includes_str_iff)
  with none same show ?thesis
    by blast
qed

theorem header_anywhere_skips_merge_witness:
  "updatedContent ''Intro\<newline>see ## [2.0.0] below'' (parseChangelog ''## [2.0.0]\<newline>new'') = None
   \<and> merged ''Intro\<newline>see ## [2.0.0] below'' (parseChangelog ''## [2.0.0]\<newline>new'')
       = ''Intro\<newline>see ## [2.0.0] below''"
  using header_anywhere_skips_merge
    [where pre = "''Intro\<newline>see ''" and post = "'' below''"
       and e = "parseChangelog ''## [2.0.0]\<newline>new''"
       and d = "''Intro\<newline>see ## [2.0.0] below''"]
  by (simp add: parse_example_2_0_0)

subsection \<open>Idempotence of the merge\<close>

lemma updatedContent_None: "updatedContent d e = None \<longleftrightarrow> includes_str d (version e)"
  by (simp add: updatedContent_def Let_def)

lemma merged_includes_version:
  assumes "version e \<noteq> []" "\<not> is_ws (hd (version e))" "\<not> is_ws (last (version e))"
    and "sublist (version e) (full e)"
  shows "includes_str (merged d e) (version e)"
proof (cases "includes_str d (version e)")
  case True
  then show ?thesis by (simp add: merged_def updatedContent_def)
next
  case False
  obtain p q where pq: "full e = p @ version e @ q"
    using assms(4) by (auto simp: sublist_def)
  have in_ctx: "sublist (version e) (x @ full e @ y)" for x y
  proof -
    have "x @ full e @ y = (x @ p) @ version e @ (q @ y)" by (simp add: pq)
    then show ?thesis unfolding sublist_def by blast
  qed
  have keep: "sublist (version e) (trim (x @ full e @ y))" for x y
    using in_ctx assms(1-3) by (rule sublist_trim)
  show ?thesis
  proof (cases "includes_str (removeDuplicateHeaders d) ''## Overview''")
    case True
    have "sublist (version e)
        (trim (x @ CHR 0x0A # CHR 0x0A # full e @ CHR 0x0A # CHR 0x0A # y))" for x y
      using keep [of "x @ [CHR 0x0A, CHR 0x0A]" "[CHR 0x0A, CHR 0x0A] @ y"] by simp
    with False True show ?thesis
      by (simp add: merged_def updatedContent_def insertReleaseIntoDocs_def Let_def
          includes_str_def)
  next
    case no: False
    have "sublist (version e) (trim (full e @ CHR 0x0A # CHR 0x0A # y))" for y
      using keep [of "[]" "[CHR 0x0A, CHR 0x0A] @ y"] by simp
    with False no show ?thesis
      by (simp add: merged_def updatedContent_def Let_def includes_str_def)
  qed
qed

text \<open>
  C2. For every destination text and every entry that \<^verbatim>\<open>parseChangelog\<close> returns with a
  non-empty header, a second merge cycle with the same entry leaves the result of the
  first one as it is.
\<close>

theorem merge_idempotent:
  assumes "version (parseChangelog c) \<noteq> []"
  shows "merged (merged d (parseChangelog c)) (parseChangelog c) = merged d (parseChangelog c)"
proof -
  let ?e = "parseChangelog c"
  from parsed_version_in_full [OF assms]
  have "includes_str (merged d ?e) (version ?e)"
    using assms by (simp add: merged_includes_version)
  then have "updatedContent (merged d ?e) ?e = None"
    by (simp add: updatedContent_None)
  then show ?thesis
    by (simp add: merged_def)
qed

theorem merge_idempotent_witness:
  "merged (merged ''## [1.0.0]\<newline>Old notes'' (parseChangelog ''## [2.0.0]\<newline>new''))
      (parseChangelog ''## [2.0.0]\<newline>new'')
   = merged ''## [1.0.0]\<newline>Old notes'' (parseChangelog ''## [2.0.0]\<newline>new'')
   \<and> merged ''## [1.0.0]\<newline>Old notes'' (parseChangelog ''## [2.0.0]\<newline>new'')
     = ''## [2.0.0]\<newline>new\<newline>\<newline>## [1.0.0]\<newline>Old notes''"
proof -
  have "version (parseChangelog ''## [2.0.0]\<newline>new'') \<noteq> []"
    by (simp add: parse_example_2_0_0)
  from merge_idempotent [OF this, of "''## [1.0.0]\<newline>Old notes''"]
  have "merged (merged ''## [1.0.0]\<newline>Old notes'' (parseChangelog ''## [2.0.0]\<newline>new''))
      (parseChangelog ''## [2.0.0]\<newline>new'')
   = merged ''## [1.0.0]\<newline>Old notes'' (parseChangelog ''## [2.0.0]\<newline>new'')" .
  moreover have "merged ''## [1.0.0]\<newline>Old notes'' (parseChangelog ''## [2.0.0]\<newline>new'')
     = ''## [2.0.0]\<newline>new\<newline>\<newline>## [1.0.0]\<newline>Old notes''"
    by code_simp
  ultimately show ?thesis by simp
qed

subsection \<open>The first version section\<close>

text \<open>
  C8, as the code has it. Write the lines of the changelog as the lines before the first
  header line, that header line, the lines up to the next header line, and the rest (empty,
  or starting with a header line). Then \<^verbatim>\<open>parseChangelog\<close> returns the header line trimmed
  as \<open>version\<close>, the lines of the span joined by line feeds and trimmed as \<open>content\<close>, and
  both joined by a line feed and trimmed as \<open>full\<close>; nothing of the rest is in the result.
\<close>

theorem parseChangelog_first_section:
  assumes "split_nl c = pre @ [h] @ body @ rest"
    and "\<forall>l\<in>set pre. \<not> is_header l"
    and "is_header h"
    and "\<forall>l\<in>set body. \<not> is_header l"
    and "rest = [] \<or> is_header (hd rest)"
  shows "parseChangelog c =
     \<lparr>version = trim h, content = trim (join_nl body),
      full = trim (trim h @ [CHR 0x0A] @ join_nl body)\<rparr>"
  using assms by (rule parseChangelog_section)

theorem parseChangelog_first_section_witness:
  "parseChangelog ''# Changelog\<newline>## [2.0.0] \<newline>\<newline>- new\<newline>\<newline>## [1.0.0]\<newline>- old''
   = \<lparr>version = ''## [2.0.0]'', content = ''- new'', full = ''## [2.0.0]\<newline>\<newline>- new''\<rparr>"
proof -
  have 1: "split_nl ''# Changelog\<newline>## [2.0.0] \<newline>\<newline>- new\<newline>\<newline>## [1.0.0]\<newline>- old''
     = [''# Changelog''] @ [''## [2.0.0] ''] @ [[], ''- new'', []] @ [''## [1.0.0]'', ''- old'']"
    by code_simp
  have 2: "\<forall>l\<in>set [''# Changelog'']. \<not> is_header l" by (simp add: startsWith_def)
  have 3: "is_header ''## [2.0.0] ''" by (simp add: startsWith_def)
  have 4: "\<forall>l\<in>set [[], ''- new'', []]. \<not> is_header l" by (simp add: startsWith_def)
  have 5: "[''## [1.0.0]'', ''- old''] = [] \<or> is_header (hd [''## [1.0.0]'', ''- old''])"
    by (simp add: startsWith_def)
  have 6: "trim ''## [2.0.0] '' = ''## [2.0.0]''" by code_simp
  have 7: "trim (join_nl [[], ''- new'', []]) = ''- new''" by code_simp
  have 8: "trim (''## [2.0.0]'' @ [CHR 0x0A] @ join_nl [[], ''- new'', []]) = ''## [2.0.0]\<newline>\<newline>- new''"
    by code_simp
  from parseChangelog_first_section [OF 1 2 3 4 5] show ?thesis
    by (simp only: 6 7 8)
qed

text \<open>
  C8 as stated fails: the header that is returned is not the header line itself when that
  line ends in white space.
\<close>

theorem header_is_trimmed_line:
  "hd (split_nl ''## [1.0.0] \<newline>body'') = ''## [1.0.0] ''
   \<and> is_header ''## [1.0.0] ''
   \<and> version (parseChangelog ''## [1.0.0] \<newline>body'') \<noteq> ''## [1.0.0] ''"
  by code_simp

subsection \<open>Round trip into an empty destination\<close>

lemma removeDuplicateHeaders_Nil [simp]: "removeDuplicateHeaders [] = []"
  by (simp add: removeDuplicateHeaders_def startsWith_def)

lemma merged_empty_destination:
  assumes "version e \<noteq> []"
  shows "merged [] e = trim (full e)"
proof -
  have "\<not> includes_str [] (version e)" using assms by (simp add: includes_str_def)
  moreover have "\<not> includes_str [] ''## Overview''" by (simp add: includes_str_def)
  moreover have "trim (full e @ [CHR 0x0A, CHR 0x0A]) = trim (full e)"
    by (rule trim_append_ws) simp
  ultimately show ?thesis
    by (simp add: merged_def updatedContent_def Let_def)
qed

text \<open>
  C7, as the code has it. For a changelog with exactly one header line, merging the parsed
  entry into the empty destination gives the trimmed header line, a line feed and the
  lines after the header, trimmed as a whole; when the header line has no trailing white
  space this is the trimmed text of the section.
\<close>

theorem round_trip_single_section:
  assumes "split_nl c = pre @ [h] @ body"
    and "\<forall>l\<in>set pre. \<not> is_header l"
    and "is_header h"
    and "\<forall>l\<in>set body. \<not> is_header l"
  shows "merged [] (parseChangelog c) = trim (trim h @ [CHR 0x0A] @ join_nl body)
     \<and> (trim h = h \<longrightarrow> merged [] (parseChangelog c) = trim (join_nl (h # body)))"
proof -
  have sp: "split_nl c = pre @ [h] @ body @ []" using assms(1) by simp
  have p: "parseChangelog c =
     \<lparr>version = trim h, content = trim (join_nl body),
      full = trim (trim h @ [CHR 0x0A] @ join_nl body)\<rparr>"
    by (rule parseChangelog_section [OF sp assms(2) assms(3) assms(4)]) simp
  have "version (parseChangelog c) \<noteq> []"
    using assms(3) by (simp add: p header_trim_not_Nil)
  then have m: "merged [] (parseChangelog c) = trim (trim h @ [CHR 0x0A] @ join_nl body)"
    by (simp add: merged_empty_destination p)
  have "trim (h @ [CHR 0x0A] @ join_nl body) = trim (join_nl (h # body))"
  proof (cases "body = []")
    case True
    have "trim (h @ [CHR 0x0A]) = trim h" by (rule trim_append_ws) simp
    with True show ?thesis by simp
  next
    case False
    then show ?thesis by (simp add: join_nl_Cons)
  qed
  with m show ?thesis by simp
qed

theorem round_trip_single_section_witness:
  "merged [] (parseChangelog ''# Changelog\<newline>## [2.0.0]\<newline>new'') = ''## [2.0.0]\<newline>new''
   \<and> trim (join_nl [''## [2.0.0]'', ''new'']) = ''## [2.0.0]\<newline>new''"
proof -
  have 1: "split_nl ''# Changelog\<newline>## [2.0.0]\<newline>new'' = [''# Changelog''] @ [''## [2.0.0]''] @ [''new'']"
    by code_simp
  have 2: "\<forall>l\<in>set [''# Changelog'']. \<not> is_header l" by (simp add: startsWith_def)
  have 3: "is_header ''## [2.0.0]''" by (simp add: startsWith_def)
  have 4: "\<forall>l\<in>set [''new'']. \<not> is_header l" by (simp add: startsWith_def)
  have 5: "trim ''## [2.0.0]'' = ''## [2.0.0]''" by code_simp
  have 6: "trim (join_nl [''## [2.0.0]'', ''new'']) = ''## [2.0.0]\<newline>new''" by code_simp
  from round_trip_single_section [OF 1 2 3 4] 5 6 show ?thesis by simp
qed

text \<open>
  C7 as stated fails for a header line that ends in white space: the destination is not the
  trimmed text of the section.
\<close>

theorem round_trip_loses_header_whitespace:
  "merged [] (parseChangelog ''## [1.0.0] \<newline>body'') \<noteq> trim ''## [1.0.0] \<newline>body''"
  by code_simp

subsection \<open>The parse failure\<close>

lemma no_parse_message_after_guard:
  assumes "files w src = Some c"
    and "version (parseChangelog c) \<noteq> []" "content (parseChangelog c) \<noteq> []"
  shows "fst (updateReleaseNotes src w) \<noteq> Exited 1 CouldNotParse"
  using assms
  by (simp add: updateReleaseNotes_def readFile_def readFileSync_def writeFile_def
      writeFileSync_def Let_def split: option.splits)

lemma parse_message_at_guard:
  assumes "files w src = Some c"
    and "version (parseChangelog c) = [] \<or> content (parseChangelog c) = []"
  shows "updateReleaseNotes src w = (Exited 1 CouldNotParse, w)"
  using assms
  by (auto simp add: updateReleaseNotes_def readFile_def readFileSync_def Let_def)

text \<open>
  C6, as the code has it. With a readable changelog, a changelog without a header line ends
  the run with exit code 1 and the message of the parse failure; a changelog with a header
  line ends so exactly when the lines between its first header line and the next one hold
  white space only, and otherwise the run goes on past the parse step.
\<close>

theorem parse_failure_iff:
  assumes "files w src = Some c"
  shows "((\<forall>l\<in>set (split_nl c). \<not> is_header l) \<longrightarrow>
            updateReleaseNotes src w = (Exited 1 CouldNotParse, w))
     \<and> (split_nl c = pre @ [h] @ body @ rest \<and> (\<forall>l\<in>set pre. \<not> is_header l) \<and> is_header h
          \<and> (\<forall>l\<in>set body. \<not> is_header l) \<and> (rest = [] \<or> is_header (hd rest)) \<longrightarrow>
            (fst (updateReleaseNotes src w) = Exited 1 CouldNotParse
               \<longleftrightarrow> (\<forall>ch\<in>set (join_nl body). is_ws ch)))"
proof (intro conjI impI)
  assume "\<forall>l\<in>set (split_nl c). \<not> is_header l"
  then have "version (parseChangelog c) = []"
    by (simp add: parseChangelog_no_header)
  with assms show "updateReleaseNotes src w = (Exited 1 CouldNotParse, w)"
    by (simp add: parse_message_at_guard)
next
  assume a: "split_nl c = pre @ [h] @ body @ rest \<and> (\<forall>l\<in>set pre. \<not> is_header l) \<and> is_header h
          \<and> (\<forall>l\<in>set body. \<not> is_header l) \<and> (rest = [] \<or> is_header (hd rest))"
  then have a1: "split_nl c = pre @ [h] @ body @ rest"
    and a2: "\<forall>l\<in>set pre. \<not> is_header l"
    and a3: "is_header h"
    and a4: "\<forall>l\<in>set body. \<not> is_header l"
    and a5: "rest = [] \<or> is_header (hd rest)"
    by blast+
  have p: "parseChangelog c =
     \<lparr>version = trim h, content = trim (join_nl body),
      full = trim (trim h @ [CHR 0x0A] @ join_nl body)\<rparr>"
    using a1 a2 a3 a4 a5 by (rule parseChangelog_section)
  from a3 have v: "version (parseChangelog c) \<noteq> []"
    by (simp add: p header_trim_not_Nil)
  have ct: "content (parseChangelog c) = [] \<longleftrightarrow> (\<forall>ch\<in>set (join_nl body). is_ws ch)"
    by (simp only: p release.simps trim_eq_Nil)
  show "fst (updateReleaseNotes src w) = Exited 1 CouldNotParse
               \<longleftrightarrow> (\<forall>ch\<in>set (join_nl body). is_ws ch)"
  proof (cases "content (parseChangelog c) = []")
    case True
    with assms have "updateReleaseNotes src w = (Exited 1 CouldNotParse, w)"
      by (simp add: parse_message_at_guard)
    with True ct show ?thesis by simp
  next
    case False
    from assms v False have "fst (updateReleaseNotes src w) \<noteq> Exited 1 CouldNotParse"
      by (rule no_parse_message_after_guard)
    with False ct show ?thesis by simp
  qed
qed

theorem parse_failure_iff_witness:
  "updateReleaseNotes ''./CHANGELOG.md''
     \<lparr>files = [''./CHANGELOG.md'' \<mapsto> ''# Changelog\<newline>nothing yet''], write_fails = {}\<rparr>
   = (Exited 1 CouldNotParse,
      \<lparr>files = [''./CHANGELOG.md'' \<mapsto> ''# Changelog\<newline>nothing yet''], write_fails = {}\<rparr>)
   \<and> fst (updateReleaseNotes ''./CHANGELOG.md''
        \<lparr>files = [''./CHANGELOG.md'' \<mapsto> ''## [2.0.0]\<newline> \<newline>## [1.0.0]\<newline>old''],
         write_fails = {}\<rparr>) = Exited 1 CouldNotParse
   \<and> fst (updateReleaseNotes ''./CHANGELOG.md''
        \<lparr>files = [''./CHANGELOG.md'' \<mapsto> ''## [2.0.0]\<newline>new\<newline>## [1.0.0]\<newline>old''],
         write_fails = {}\<rparr>) \<noteq> Exited 1 CouldNotParse"
proof -
  let ?w1 = "\<lparr>files = [''./CHANGELOG.md'' \<mapsto> ''# Changelog\<newline>nothing yet''], write_fails = {}\<rparr>"
  have f1: "files ?w1 ''./CHANGELOG.md'' = Some ''# Changelog\<newline>nothing yet''" by simp
  have s1: "split_nl ''# Changelog\<newline>nothing yet'' = [''# Changelog'', ''nothing yet'']"
    by code_simp
  have n1: "\<forall>l\<in>set (split_nl ''# Changelog\<newline>nothing yet''). \<not> is_header l"
    by (simp add: s1 startsWith_def)
  from parse_failure_iff [OF f1] n1
  have r1: "updateReleaseNotes ''./CHANGELOG.md'' ?w1 = (Exited 1 CouldNotParse, ?w1)"
    by blast
  let ?w2 = "\<lparr>files = [''./CHANGELOG.md'' \<mapsto> ''## [2.0.0]\<newline> \<newline>## [1.0.0]\<newline>old''],
         write_fails = {}\<rparr>"
  have f2: "files ?w2 ''./CHANGELOG.md'' = Some ''## [2.0.0]\<newline> \<newline>## [1.0.0]\<newline>old''"
    by simp
  have s2: "split_nl ''## [2.0.0]\<newline> \<newline>## [1.0.0]\<newline>old''
      = [] @ [''## [2.0.0]''] @ ['' ''] @ [''## [1.0.0]'', ''old'']"
    by code_simp
  have c2: "(\<forall>l\<in>set []. \<not> is_header l) \<and> is_header ''## [2.0.0]''
      \<and> (\<forall>l\<in>set ['' '']. \<not> is_header l)
      \<and> ([''## [1.0.0]'', ''old''] = [] \<or> is_header (hd [''## [1.0.0]'', ''old'']))"
    by (simp add: startsWith_def)
  have b2: "\<forall>ch\<in>set (join_nl ['' '']). is_ws ch" by (simp add: is_ws_def)
  from parse_failure_iff [OF f2, of "[]" "''## [2.0.0]''" "['' '']" "[''## [1.0.0]'', ''old'']"]
    s2 c2 b2
  have r2: "fst (updateReleaseNotes ''./CHANGELOG.md'' ?w2) = Exited 1 CouldNotParse"
    by blast
  let ?w3 = "\<lparr>files = [''./CHANGELOG.md'' \<mapsto> ''## [2.0.0]\<newline>new\<newline>## [1.0.0]\<newline>old''],
         write_fails = {}\<rparr>"
  have f3: "files ?w3 ''./CHANGELOG.md'' = Some ''## [2.0.0]\<newline>new\<newline>## [1.0.0]\<newline>old''"
    by simp
  have s3: "split_nl ''## [2.0.0]\<newline>new\<newline>## [1.0.0]\<newline>old''
      = [] @ [''## [2.0.0]''] @ [''new''] @ [''## [1.0.0]'', ''old'']"
    by code_simp
  have c3: "(\<forall>l\<in>set []. \<not> is_header l) \<and> is_header ''## [2.0.0]''
      \<and> (\<forall>l\<in>set [''new'']. \<not> is_header l)
      \<and> ([''## [1.0.0]'', ''old''] = [] \<or> is_header (hd [''## [1.0.0]'', ''old'']))"
    by (simp add: startsWith_def)
  have b3: "\<not> (\<forall>ch\<in>set (join_nl [''new'']). is_ws ch)" by (simp add: is_ws_def)
  from parse_failure_iff [OF f3, of "[]" "''## [2.0.0]''" "[''new'']" "[''## [1.0.0]'', ''old'']"]
    s3 c3 b3
  have r3: "fst (updateReleaseNotes ''./CHANGELOG.md'' ?w3) \<noteq> Exited 1 CouldNotParse"
    by blast
  from r1 r2 r3 show ?thesis by simp
qed

text \<open>
  C6 as stated fails: a changelog that is one header line and nothing else has a line
  beginning with the marker, and the run ends with the parse failure.
\<close>

theorem header_without_body_is_parse_failure:
  "is_header (hd (split_nl ''## [1.0.0]''))
   \<and> updateReleaseNotes ''./CHANGELOG.md''
       \<lparr>files = [''./CHANGELOG.md'' \<mapsto> ''## [1.0.0]''], write_fails = {}\<rparr>
     = (Exited 1 CouldNotParse,
        \<lparr>files = [''./CHANGELOG.md'' \<mapsto> ''## [1.0.0]''], write_fails = {}\<rparr>)"
proof -
  have "parseChangelog ''## [1.0.0]'' = \<lparr>version = ''## [1.0.0]'', content = [], full = ''## [1.0.0]''\<rparr>"
    by code_simp
  then show ?thesis
    by (simp add: updateReleaseNotes_def readFile_def readFileSync_def Let_def startsWith_def)
qed

subsection \<open>The deduplication pass\<close>

lemma dedup_loop_acc: "dedup_loop ls seen acc = acc @ dedup_loop ls seen []"
proof (induction ls arbitrary: seen acc)
  case Nil
  show ?case by simp
next
  case (Cons l ls)
  show ?case
    using Cons.IH [of _ "acc @ [l]"] Cons.IH [of _ "[l]"] Cons.IH [of _ acc]
    by simp
qed

lemma dedup_loop_filter:
  "filter (\<lambda>l. \<not> is_header l) (dedup_loop ls seen acc)
     = filter (\<lambda>l. \<not> is_header l) acc @ filter (\<lambda>l. \<not> is_header l) ls"
  by (induction ls arbitrary: seen acc) simp_all

lemma dedup_loop_subseq: "subseq (dedup_loop ls seen []) ls"
proof (induction ls arbitrary: seen)
  case Nil
  show ?case by simp
next
  case (Cons l ls)
  have "subseq (l # dedup_loop ls s []) (l # ls)" for s
    using Cons.IH by simp
  moreover have "subseq (dedup_loop ls s []) (l # ls)" for s
    using Cons.IH by (rule list_emb_Cons)
  ultimately show ?case
    using dedup_loop_acc [of ls _ "[l]"] by simp
qed

lemma subseq_set_subset: "subseq xs ys \<Longrightarrow> set xs \<subseteq> set ys"
  by (induction rule: list_emb.induct) auto

lemma dedup_loop_first: "dedup_loop (l # ls) {} [] = l # dedup_loop ls (if is_header l then {trim l} else {}) []"
  using dedup_loop_acc [of ls _ "[l]"] by simp

lemma dedup_lines:
  "split_nl (removeDuplicateHeaders s) = dedup_loop (split_nl s) {} []"
proof -
  let ?out = "dedup_loop (split_nl s) {} []"
  obtain l ls where sp: "split_nl s = l # ls"
    by (cases "split_nl s") simp_all
  have ne: "?out \<noteq> []"
    by (simp only: sp dedup_loop_first) simp
  have "set ?out \<subseteq> set (split_nl s)"
    using dedup_loop_subseq [of "split_nl s" "{}"] by (rule subseq_set_subset)
  then have "\<forall>l\<in>set ?out. CHR 0x0A \<notin> set l"
    using split_no_nl by blast
  with ne show ?thesis
    unfolding removeDuplicateHeaders_def by (rule split_join)
qed

subsection \<open>Counting header lines\<close>

lemma header_count_Nil [simp]: "header_count k [] = 0"
  by (simp add: header_count_def)

lemma header_count_append [simp]:
  "header_count k (xs @ ys) = header_count k xs + header_count k ys"
  by (simp add: header_count_def)

lemma header_count_Cons:
  "header_count k (l # ls) = (if is_header l \<and> trim l = k then 1 else 0) + header_count k ls"
  by (simp add: header_count_def)

lemma not_header_Nil [simp]: "\<not> is_header []"
  by (simp add: startsWith_def)

lemma header_count_no_header:
  "\<forall>l\<in>set ls. \<not> is_header l \<Longrightarrow> header_count k ls = 0"
  by (induction ls) (simp_all add: header_count_Cons)

lemma header_snoc_ws: "is_ws ch \<Longrightarrow> is_header (l @ [ch]) \<longleftrightarrow> is_header l"
  by (auto simp: startsWith_def)

lemma split_nl_snoc:
  "ch \<noteq> CHR 0x0A \<Longrightarrow>
   split_nl (s @ [ch]) = butlast (split_nl s) @ [last (split_nl s) @ [ch]]"
proof (induction s)
  case Nil
  then show ?case by simp
next
  case (Cons a s)
  obtain l ls where sp: "split_nl s = l # ls"
    by (cases "split_nl s") simp_all
  with Cons show ?case by (cases ls) auto
qed

lemma header_count_snoc_line:
  assumes "is_ws ch" "ls \<noteq> []"
  shows "header_count k (butlast ls @ [last ls @ [ch]]) = header_count k ls"
proof -
  have t: "trim (last ls @ [ch]) = trim (last ls)"
    using assms(1) by (intro trim_append_ws) simp
  have "header_count k (butlast ls @ [last ls @ [ch]])
      = header_count k (butlast ls) + header_count k [last ls]"
    using assms(1) by (simp add: header_count_Cons header_snoc_ws t)
  also have "\<dots> = header_count k (butlast ls @ [last ls])"
    by simp
  finally show ?thesis using assms(2) by simp
qed

lemma header_count_split_snoc:
  assumes "is_ws ch"
  shows "header_count k (split_nl (s @ [ch])) = header_count k (split_nl s)"
proof (cases "ch = CHR 0x0A")
  case True
  have "split_nl (s @ CHR 0x0A # []) = split_nl s @ split_nl []"
    by (rule split_append_nl)
  with True show ?thesis by (simp add: header_count_Cons)
next
  case False
  show ?thesis
    by (simp only: split_nl_snoc [OF False] header_count_snoc_line [OF assms split_nl_not_Nil])
qed

lemma header_count_split_append_ws:
  "\<forall>ch\<in>set w. is_ws ch \<Longrightarrow> header_count k (split_nl (s @ w)) = header_count k (split_nl s)"
proof (induction w arbitrary: s)
  case Nil
  show ?case by simp
next
  case (Cons ch w)
  have "header_count k (split_nl ((s @ [ch]) @ w)) = header_count k (split_nl (s @ [ch]))"
    using Cons.prems by (intro Cons.IH) simp
  also have "\<dots> = header_count k (split_nl s)"
    using Cons.prems by (simp add: header_count_split_snoc)
  finally show ?case by simp
qed

lemma header_count_split_trim:
  assumes "s = [] \<or> \<not> is_ws (hd s)"
  shows "header_count k (split_nl (trim s)) = header_count k (split_nl s)"
proof -
  obtain a b where d: "s = a @ trim s @ b" and a: "\<forall>c\<in>set a. is_ws c" and b: "\<forall>c\<in>set b. is_ws c"
    using trim_decomp [of s] by blast
  have "a = []"
  proof (rule ccontr)
    assume "a \<noteq> []"
    then have "hd a \<in> set a" by simp
    moreover have "hd s = hd a" by (subst d) (simp add: \<open>a \<noteq> []\<close>)
    moreover have "s \<noteq> []" by (subst d) (simp add: \<open>a \<noteq> []\<close>)
    ultimately show False using a assms by auto
  qed
  with d have "s = trim s @ b" by simp
  then have "header_count k (split_nl s) = header_count k (split_nl (trim s @ b))" by simp
  also have "\<dots> = header_count k (split_nl (trim s))"
    using b by (rule header_count_split_append_ws)
  finally show ?thesis by simp
qed

lemma header_count_split_join:
  assumes "\<forall>l\<in>set ls. CHR 0x0A \<notin> set l"
  shows "header_count k (split_nl (join_nl ls)) = header_count k ls"
proof (cases "ls = []")
  case True
  then show ?thesis by (simp add: header_count_Cons)
next
  case False
  then show ?thesis using assms by (simp add: split_join)
qed

subsection \<open>The deduplication pass keeps one header line of each trimmed text\<close>

lemma dedup_loop_count:
  "header_count k (dedup_loop ls seen acc) =
     header_count k acc +
     (if k \<notin> seen \<and> (\<exists>l\<in>set ls. is_header l \<and> trim l = k) then 1 else 0)"
proof (induction ls arbitrary: seen acc)
  case Nil
  show ?case by simp
next
  case (Cons l ls)
  show ?case
    by (simp add: Cons.IH header_count_Cons) auto
qed

text \<open>
  C10. The lines of the output of \<^verbatim>\<open>removeDuplicateHeaders\<close> are a subsequence of the lines
  of its input, and the lines that do not begin with the version marker are the same in
  both, in the same order: the lines beneath a dropped header stay. Only repeated header
  lines are dropped: for every header line of the input, the output has exactly one header
  line with the same trimmed text.
\<close>

theorem removeDuplicateHeaders_keeps_other_lines:
  "filter (\<lambda>l. \<not> is_header l) (split_nl (removeDuplicateHeaders s))
     = filter (\<lambda>l. \<not> is_header l) (split_nl s)
   \<and> subseq (split_nl (removeDuplicateHeaders s)) (split_nl s)
   \<and> (\<forall>l\<in>set (split_nl s). is_header l \<longrightarrow>
         header_count (trim l) (split_nl (removeDuplicateHeaders s)) = 1)"
proof -
  have "header_count (trim l) (dedup_loop (split_nl s) {} []) = 1"
    if "l \<in> set (split_nl s)" "is_header l" for l
    using that by (auto simp: dedup_loop_count)
  then show ?thesis
    by (simp add: dedup_lines dedup_loop_filter dedup_loop_subseq)
qed

theorem removeDuplicateHeaders_keeps_other_lines_witness:
  "filter (\<lambda>l. \<not> is_header l)
      (split_nl (removeDuplicateHeaders ''## [1.0.0]\<newline>a\<newline>## [1.0.0]\<newline>b''))
     = [''a'', ''b'']
   \<and> header_count ''## [1.0.0]''
        (split_nl (removeDuplicateHeaders ''## [1.0.0]\<newline>a\<newline>## [1.0.0]\<newline>b'')) = 1
   \<and> removeDuplicateHeaders ''## [1.0.0]\<newline>a\<newline>## [1.0.0]\<newline>b'' = ''## [1.0.0]\<newline>a\<newline>b''"
proof -
  let ?d = "''## [1.0.0]\<newline>a\<newline>## [1.0.0]\<newline>b''"
  have s: "split_nl ?d = [''## [1.0.0]'', ''a'', ''## [1.0.0]'', ''b'']"
    by code_simp
  have r: "removeDuplicateHeaders ?d = ''## [1.0.0]\<newline>a\<newline>b''"
    by code_simp
  have t: "trim ''## [1.0.0]'' = ''## [1.0.0]''"
    by code_simp
  have m: "''## [1.0.0]'' \<in> set (split_nl ?d)"
    by (simp add: s)
  have h: "is_header ''## [1.0.0]''"
    by (simp add: startsWith_def)
  from removeDuplicateHeaders_keeps_other_lines [of ?d]
  have "filter (\<lambda>l. \<not> is_header l) (split_nl (removeDuplicateHeaders ?d))
     = filter (\<lambda>l. \<not> is_header l) (split_nl ?d)"
    by blast
  also have "\<dots> = [''a'', ''b'']"
    by (simp add: s startsWith_def)
  finally have 1: "filter (\<lambda>l. \<not> is_header l) (split_nl (removeDuplicateHeaders ?d)) = [''a'', ''b'']" .
  from removeDuplicateHeaders_keeps_other_lines [of ?d] m h
  have "header_count (trim ''## [1.0.0]'') (split_nl (removeDuplicateHeaders ?d)) = 1"
    by blast
  then have 2: "header_count ''## [1.0.0]'' (split_nl (removeDuplicateHeaders ?d)) = 1"
    by (simp only: t)
  from 1 2 r show ?thesis by blast
qed

lemma trim_sublist: "sublist (trim s) s"
proof -
  obtain a b where "s = a @ trim s @ b" using trim_decomp [of s] by blast
  then show ?thesis unfolding sublist_def by blast
qed

lemma count_prepended:
  assumes "f \<noteq> []" "\<not> is_ws (hd f)"
  shows "header_count k (split_nl (trim (f @ [CHR 0x0A, CHR 0x0A] @ a)))
     = header_count k (split_nl f) + header_count k (split_nl a)"
proof -
  let ?z = "f @ [CHR 0x0A, CHR 0x0A] @ a"
  have "?z = [] \<or> \<not> is_ws (hd ?z)" using assms by simp
  then have "header_count k (split_nl (trim ?z)) = header_count k (split_nl ?z)"
    by (rule header_count_split_trim)
  also have "split_nl ?z = split_nl f @ [] # split_nl a"
    using split_append_nl [of f "CHR 0x0A # a"] by simp
  finally show ?thesis by (simp add: header_count_Cons)
qed

lemma count_inserted:
  assumes "f \<noteq> []" "\<not> is_ws (hd f)" "b = [] \<or> \<not> is_ws (hd b)"
  shows "header_count k
        (split_nl (trim (b @ [CHR 0x0A, CHR 0x0A] @ f @ [CHR 0x0A, CHR 0x0A] @ a)))
     = header_count k (split_nl b) + header_count k (split_nl f) + header_count k (split_nl a)"
proof (cases "b = []")
  case True
  have "trim ([CHR 0x0A, CHR 0x0A] @ (f @ [CHR 0x0A, CHR 0x0A] @ a))
      = trim (f @ [CHR 0x0A, CHR 0x0A] @ a)"
    by (rule trim_prepend_ws) simp
  with True show ?thesis
    using count_prepended [OF assms(1,2), of k a] by (simp add: header_count_Cons)
next
  case False
  let ?z = "b @ [CHR 0x0A, CHR 0x0A] @ f @ [CHR 0x0A, CHR 0x0A] @ a"
  have "?z = [] \<or> \<not> is_ws (hd ?z)" using False assms(3) by simp
  then have "header_count k (split_nl (trim ?z)) = header_count k (split_nl ?z)"
    by (rule header_count_split_trim)
  also have "split_nl ?z = split_nl b @ [] # split_nl f @ [] # split_nl a"
    using split_append_nl [of b "CHR 0x0A # f @ [CHR 0x0A, CHR 0x0A] @ a"]
      split_append_nl [of f "CHR 0x0A # a"] by simp
  finally show ?thesis by (simp add: header_count_Cons)
qed

lemma full_count_zero:
  assumes "is_header h'" "CHR 0x0A \<notin> set h'"
    and "\<forall>l\<in>set body. \<not> is_header l \<and> CHR 0x0A \<notin> set l"
    and "trim h' \<noteq> k"
  shows "header_count k (split_nl (trim (trim h' @ [CHR 0x0A] @ join_nl body))) = 0"
proof -
  let ?y = "trim h' @ [CHR 0x0A] @ join_nl body"
  have ne: "trim h' \<noteq> []" using assms(1) by (rule header_trim_not_Nil)
  then have "\<not> is_ws (hd (trim h'))" by (rule trim_hd_not_ws)
  with ne have "?y = [] \<or> \<not> is_ws (hd ?y)" by simp
  then have "header_count k (split_nl (trim ?y)) = header_count k (split_nl ?y)"
    by (rule header_count_split_trim)
  also have "split_nl ?y = split_nl (trim h') @ split_nl (join_nl body)"
    using split_append_nl [of "trim h'" "join_nl body"] by simp
  also have "split_nl (trim h') = [trim h']"
  proof (rule split_nl_single)
    show "CHR 0x0A \<notin> set (trim h')"
      using assms(2) set_mono_sublist [OF trim_sublist [of h']] by blast
  qed
  also have "header_count k ([trim h'] @ split_nl (join_nl body))
      = header_count k [trim h'] + header_count k (split_nl (join_nl body))"
    by (rule header_count_append)
  also have "header_count k (split_nl (join_nl body)) = header_count k body"
    using assms(3) by (intro header_count_split_join) blast
  also have "header_count k [trim h'] = 0"
    using assms(4) by (simp add: header_count_Cons)
  also have "header_count k body = 0"
    using assms(3) by (simp add: header_count_no_header)
  finally show ?thesis by simp
qed

lemma split_nl_hd:
  "s \<noteq> [] \<Longrightarrow> hd s \<noteq> CHR 0x0A \<Longrightarrow> hd (split_nl s) \<noteq> [] \<and> hd (hd (split_nl s)) = hd s"
  by (cases s) (auto split: list.splits)

lemma join_nl_hd: "l \<noteq> [] \<Longrightarrow> hd (join_nl (l # ls)) = hd l"
  by (cases ls) simp_all

lemma before_starts_like_destination:
  assumes "d \<noteq> []" "\<not> is_ws (hd d)"
  shows "join_nl (take n (split_nl (removeDuplicateHeaders d))) = []
     \<or> \<not> is_ws (hd (join_nl (take n (split_nl (removeDuplicateHeaders d)))))"
proof (cases n)
  case 0
  then show ?thesis by simp
next
  case (Suc m)
  obtain l ls where sp: "split_nl d = l # ls"
    by (cases "split_nl d") simp_all
  have "hd d \<noteq> CHR 0x0A" using assms(2) by auto
  with assms(1) have l: "l \<noteq> [] \<and> hd l = hd d"
    using split_nl_hd [of d] by (simp add: sp)
  have "split_nl (removeDuplicateHeaders d)
      = l # dedup_loop ls (if is_header l then {trim l} else {}) []"
    by (simp only: dedup_lines sp dedup_loop_first)
  then have "hd (join_nl (take n (split_nl (removeDuplicateHeaders d)))) = hd d"
    using l by (simp add: Suc join_nl_hd)
  with assms(2) show ?thesis by simp
qed

text \<open>
  C4, as the code has it. Let the destination not contain the header of the new entry and
  not begin with white space, and let it have a version-header line \<open>h\<close>, once or several
  times. Then the result of the merge cycle has exactly one version-header line whose
  trimmed text is the trimmed text of \<open>h\<close>.
\<close>

theorem merge_cycle_one_header_line:
  assumes absent: "\<not> includes_str d (version (parseChangelog c))"
    and line: "h \<in> set (split_nl d)"
    and header: "is_header h"
    and start: "\<not> is_ws (hd d)"
  shows "header_count (trim h) (split_nl (merged d (parseChangelog c))) = 1"
proof -
  let ?e = "parseChangelog c"
  let ?k = "trim h"
  let ?dd = "removeDuplicateHeaders d"
  let ?L = "split_nl ?dd"
  have v: "version ?e \<noteq> []"
    using absent by (auto simp: includes_str_def)
  then obtain h' body where hh': "is_header h'" and hn: "CHR 0x0A \<notin> set h'"
    and body: "\<forall>l\<in>set body. \<not> is_header l \<and> CHR 0x0A \<notin> set l"
    and p: "?e = \<lparr>version = trim h', content = trim (join_nl body),
         full = trim (trim h' @ [CHR 0x0A] @ join_nl body)\<rparr>"
    by (rule parseChangelog_shape)
  have "sublist ?k d"
    using trim_sublist [of h] line_sublist [OF line] by (rule sublist_order.order.trans)
  with absent have "trim h' \<noteq> ?k"
    by (auto simp: includes_str_def p)
  with hh' hn body
  have "header_count ?k (split_nl (trim (trim h' @ [CHR 0x0A] @ join_nl body))) = 0"
    by (rule full_count_zero)
  then have f0: "header_count ?k (split_nl (full ?e)) = 0"
    by (simp add: p)
  have "sublist (version ?e) (full ?e)"
    using parsed_version_in_full [OF v] by simp
  with v have fne: "full ?e \<noteq> []" by auto
  then have fhd: "\<not> is_ws (hd (full ?e))"
    using trim_hd_not_ws [of "trim h' @ [CHR 0x0A] @ join_nl body"] by (simp add: p)
  have dne: "d \<noteq> []"
    using line header by auto
  have one: "header_count ?k ?L = 1"
    using line header by (auto simp: dedup_lines dedup_loop_count)
  have nonl: "\<forall>l\<in>set ?L. CHR 0x0A \<notin> set l"
    using split_no_nl by blast
  show ?thesis
  proof (cases "includes_str ?dd ''## Overview''")
    case False
    with absent have "merged d ?e = trim (full ?e @ [CHR 0x0A, CHR 0x0A] @ ?dd)"
      by (simp add: merged_def updatedContent_def Let_def)
    then show ?thesis
      using count_prepended [OF fne fhd, of ?k ?dd] f0 one by simp
  next
    case True
    let ?n = "insert_loop ?L 0 False False [] 0"
    let ?b = "join_nl (take ?n ?L)"
    let ?a = "join_nl (drop ?n ?L)"
    from True absent
    have m: "merged d ?e = trim (?b @ [CHR 0x0A, CHR 0x0A] @ full ?e @ [CHR 0x0A, CHR 0x0A] @ ?a)"
      by (simp add: merged_def updatedContent_def insertReleaseIntoDocs_def Let_def)
    have b: "?b = [] \<or> \<not> is_ws (hd ?b)"
      using dne start by (rule before_starts_like_destination)
    have cb: "header_count ?k (split_nl ?b) = header_count ?k (take ?n ?L)"
      using nonl by (intro header_count_split_join) (auto dest: in_set_takeD)
    have ca: "header_count ?k (split_nl ?a) = header_count ?k (drop ?n ?L)"
      using nonl by (intro header_count_split_join) (auto dest: in_set_dropD)
    have "header_count ?k (take ?n ?L) + header_count ?k (drop ?n ?L)
        = header_count ?k (take ?n ?L @ drop ?n ?L)"
      by (simp only: header_count_append)
    then have "header_count ?k (take ?n ?L) + header_count ?k (drop ?n ?L) = 1"
      using one by simp
    with count_inserted [OF fne fhd b, of ?k ?a] cb ca f0 m show ?thesis
      by simp
  qed
qed

theorem merge_cycle_one_header_line_witness:
  "count_list (split_nl ''## [1.0.0]\<newline>a\<newline>## [1.0.0]\<newline>b'') ''## [1.0.0]'' = 2
   \<and> header_count ''## [1.0.0]''
        (split_nl (merged ''## [1.0.0]\<newline>a\<newline>## [1.0.0]\<newline>b''
           (parseChangelog ''## [2.0.0]\<newline>new''))) = 1
   \<and> merged ''## [1.0.0]\<newline>a\<newline>## [1.0.0]\<newline>b'' (parseChangelog ''## [2.0.0]\<newline>new'')
       = ''## [2.0.0]\<newline>new\<newline>\<newline>## [1.0.0]\<newline>a\<newline>b''"
proof -
  let ?d = "''## [1.0.0]\<newline>a\<newline>## [1.0.0]\<newline>b''"
  have s: "split_nl ?d = [''## [1.0.0]'', ''a'', ''## [1.0.0]'', ''b'']"
    by code_simp
  have 1: "\<not> includes_str ?d (version (parseChangelog ''## [2.0.0]\<newline>new''))"
    by (simp add: parse_example_2_0_0 includes_str_def sublist_code)
  have 2: "''## [1.0.0]'' \<in> set (split_nl ?d)"
    by (simp add: s)
  have 3: "is_header ''## [1.0.0]''"
    by (simp add: startsWith_def)
  have 4: "\<not> is_ws (hd ?d)"
    by (simp add: is_ws_def)
  have 5: "trim ''## [1.0.0]'' = ''## [1.0.0]''"
    by code_simp
  have 6: "count_list (split_nl ?d) ''## [1.0.0]'' = 2"
    by (simp add: s)
  have 7: "merged ?d (parseChangelog ''## [2.0.0]\<newline>new'')
       = ''## [2.0.0]\<newline>new\<newline>\<newline>## [1.0.0]\<newline>a\<newline>b''"
    by code_simp
  from merge_cycle_one_header_line [OF 1 2 3 4] 5 6 7 show ?thesis
    by simp
qed

text \<open>
  C4 as stated fails when the header of the new entry is the duplicated header: the run
  returns at the already-present check, and both header lines stay.
\<close>

theorem duplicates_stay_when_entry_present:
  "count_list (split_nl ''## [1.0.0]\<newline>a\<newline>## [1.0.0]\<newline>b'') ''## [1.0.0]'' = 2
   \<and> version (parseChangelog ''## [1.0.0]\<newline>new'') = ''## [1.0.0]''
   \<and> count_list
        (split_nl (merged ''## [1.0.0]\<newline>a\<newline>## [1.0.0]\<newline>b''
           (parseChangelog ''## [1.0.0]\<newline>new''))) ''## [1.0.0]'' = 2"
  by code_simp

text \<open>
  The two conditions on the destination are needed. The header line that stays is the first
  one with that trimmed text, which need not be the duplicated line itself; and the final
  \<^verbatim>\<open>trim\<close> of the result can turn an indented first line into a header line.
\<close>

lemma kept_header_line_may_differ:
  "count_list (split_nl ''## [1] \<newline>x\<newline>## [1]\<newline>## [1]'') ''## [1]'' = 2
   \<and> merged ''## [1] \<newline>x\<newline>## [1]\<newline>## [1]'' (parseChangelog ''## [2.0.0]\<newline>new'')
       = ''## [2.0.0]\<newline>new\<newline>\<newline>## [1] \<newline>x''"
  by code_simp

lemma indented_first_line_becomes_header:
  "merged '' ## [1]\<newline>## Overview\<newline>## [1]\<newline>a\<newline>## [1]'' (parseChangelog ''## [2.0.0]\<newline>new'')
     = ''## [1]\<newline>\<newline>## [2.0.0]\<newline>new\<newline>\<newline>## Overview\<newline>## [1]\<newline>a''"
  by code_simp

subsection \<open>A destination file that does not exist\<close>

text \<open>
  C1. With a readable changelog that parses to a non-empty entry and no destination file,
  \<^verbatim>\<open>readFile\<close> ends the process with exit code 1 inside its own \<^verbatim>\<open>catch\<close>; the
  \<^verbatim>\<open>catch\<close> of \<^verbatim>\<open>updateReleaseNotes\<close> that would continue with the empty string is never
  reached, and nothing is written.
\<close>

theorem missing_destination_is_fatal:
  assumes "files w src = Some c"
    and "version (parseChangelog c) \<noteq> []"
    and "content (parseChangelog c) \<noteq> []"
    and "files w RELEASE_NOTES_PATH = None"
  shows "updateReleaseNotes src w = (Exited 1 (ErrorReading RELEASE_NOTES_PATH), w)"
  using assms
  by (simp add: updateReleaseNotes_def readFile_def readFileSync_def Let_def)

theorem missing_destination_is_fatal_witness:
  "updateReleaseNotes ''./CHANGELOG.md''
     \<lparr>files = [''./CHANGELOG.md'' \<mapsto> ''## [2.0.0]\<newline>new''], write_fails = {}\<rparr>
   = (Exited 1 (ErrorReading ''./release-notes.md''),
      \<lparr>files = [''./CHANGELOG.md'' \<mapsto> ''## [2.0.0]\<newline>new''], write_fails = {}\<rparr>)"
proof -
  let ?w = "\<lparr>files = [''./CHANGELOG.md'' \<mapsto> ''## [2.0.0]\<newline>new''], write_fails = {}\<rparr>"
  have 1: "files ?w ''./CHANGELOG.md'' = Some ''## [2.0.0]\<newline>new''"
    by simp
  have 2: "version (parseChangelog ''## [2.0.0]\<newline>new'') \<noteq> []"
    by (simp add: parse_example_2_0_0)
  have 3: "content (parseChangelog ''## [2.0.0]\<newline>new'') \<noteq> []"
    by (simp add: parse_example_2_0_0)
  have 4: "files ?w RELEASE_NOTES_PATH = None"
    by (simp add: RELEASE_NOTES_PATH_def)
  from missing_destination_is_fatal [OF 1 2 3 4] show ?thesis
    by (simp add: RELEASE_NOTES_PATH_def)
qed

subsection \<open>Placement after the Overview section\<close>

text \<open>
  C5. On the destination \<^verbatim>\<open>"## Overview\nSome text\n## [1.0.0]\nOld notes"\<close> the entry
  \<^verbatim>\<open>"## [2.0.0]\nnew"\<close> lands between \<^verbatim>\<open>Some text\<close> and \<^verbatim>\<open>## [1.0.0]\<close> with one blank
  line before it and one blank line after it.
\<close>

theorem overview_example_one_blank_line_after:
  "insertReleaseIntoDocs ''## Overview\<newline>Some text\<newline>## [1.0.0]\<newline>Old notes''
      (parseChangelog ''## [2.0.0]\<newline>new'')
   = ''## Overview\<newline>Some text\<newline>\<newline>## [2.0.0]\<newline>new\<newline>\<newline>## [1.0.0]\<newline>Old notes''"
  by code_simp

text \<open>
  When the first version header follows the Overview line directly, \<^verbatim>\<open>insertIndex\<close> is
  still the index of the Overview line, and the entry lands before the Overview line.
\<close>

lemma overview_directly_before_header:
  "merged ''## Overview\<newline>## [1.0.0]\<newline>Old notes'' (parseChangelog ''## [2.0.0]\<newline>new'')
   = ''## [2.0.0]\<newline>new\<newline>\<newline>## Overview\<newline>## [1.0.0]\<newline>Old notes''"
  by code_simp

end
